theory Spec2Isabelle
  imports Complex_Main "HOL-Library.Sublist" "HOL-Library.Char_ord" "HOL-Library.List_Lexorder"
begin

section \<open>Python values\<close>

text \<open>
  The values that reach the pipeline from JSON (\<open>request.json\<close>, \<open>json.loads\<close>) or from
  Python callers. A \<open>str\<close> is a \<open>string\<close>; a dict keeps its items in insertion order.
  JSON numbers with a fraction are the constructor \<open>PFloat\<close>, carrying their exact value.
\<close>

datatype pyval =
    PNone
  | PBool bool
  | PInt int
  | PFloat rat
  | PStr string
  | PList "pyval list"
  | PDict "(string \<times> pyval) list"


text \<open>\<open>isinstance(v, str)\<close>.\<close>

fun is_str :: "pyval \<Rightarrow> bool" where
  "is_str (PStr s) = True"
| "is_str v = False"

fun the_str :: "pyval \<Rightarrow> string" where
  "the_str (PStr s) = s"
| "the_str v = []"

text \<open>\<open>type(v).__name__\<close>, which the interpreter's error messages quote.\<close>

fun type_name :: "pyval \<Rightarrow> string" where
  "type_name PNone = ''NoneType''"
| "type_name (PBool b) = ''bool''"
| "type_name (PInt n) = ''int''"
| "type_name (PFloat x) = ''float''"
| "type_name (PStr s) = ''str''"
| "type_name (PList xs) = ''list''"
| "type_name (PDict kvs) = ''dict''"

text \<open>
  \<open>for v in x\<close>: the elements a loop or a generator expression visits, or the \<open>TypeError\<close>
  message when \<open>x\<close> is not iterable. A string yields its characters as strings of length
  one, a dict its keys.
\<close>

fun py_iter :: "pyval \<Rightarrow> string + pyval list" where
  "py_iter (PList xs) = Inr xs"
| "py_iter (PStr s) = Inr (map (\<lambda>c. PStr [c]) s)"
| "py_iter (PDict kvs) = Inr (map (\<lambda>kv. PStr (fst kv)) kvs)"
| "py_iter v = Inl (CHR 0x27 # type_name v @ CHR 0x27 # '' object is not iterable'')"

section \<open>Video concatenation (generate\_video.py and cloudrun/generate\_video.py)\<close>

text \<open>
  What \<open>concatenate_videos\<close> reads from outside: \<open>os.path.exists\<close>, \<open>VideoFileClip(path)\<close>
  (\<open>None\<close> when the constructor raises, otherwise the clip's duration in seconds) and
  whether \<open>concatenate_videoclips\<close> followed by \<open>write_videofile\<close> completes without raising
  for the clips loaded and the output path.
\<close>

record video_env =
  path_exists :: "string \<Rightarrow> bool"
  clip_duration :: "string \<Rightarrow> rat option"
  write_videofile :: "string list \<Rightarrow> string \<Rightarrow> bool"

text \<open>
  The loading loop of generate\_video.py: a missing file is skipped, a clip that fails to load
  is skipped, a clip of duration \<open>0\<close> or less is closed and skipped; the others are kept in
  order. The clips kept are named by their paths.
\<close>

fun load_clips :: "video_env \<Rightarrow> string list \<Rightarrow> string list" where
  "load_clips env [] = []"
| "load_clips env (video_path # rest) =
     (if \<not> path_exists env video_path then load_clips env rest
      else (case clip_duration env video_path of
              None \<Rightarrow> load_clips env rest
            | Some d \<Rightarrow> if d > 0 then video_path # load_clips env rest
                         else load_clips env rest))"

definition concatenate_videos :: "video_env \<Rightarrow> pyval list \<Rightarrow> string \<Rightarrow> bool" where
  "concatenate_videos env video_list output_path =
     (if video_list = [] then False
      else if \<not> list_all is_str video_list then False
      else (let clips = load_clips env (map the_str video_list)
            in if clips = [] then False
               else if write_videofile env clips output_path then True
               else False))"

text \<open>The copy in cloudrun/generate\_video.py, translated from that file.\<close>

fun cloudrun_load_clips :: "video_env \<Rightarrow> string list \<Rightarrow> string list" where
  "cloudrun_load_clips env [] = []"
| "cloudrun_load_clips env (video_path # rest) =
     (if \<not> path_exists env video_path then cloudrun_load_clips env rest
      else (case clip_duration env video_path of
              None \<Rightarrow> cloudrun_load_clips env rest
            | Some d \<Rightarrow> if d > 0 then video_path # cloudrun_load_clips env rest
                         else cloudrun_load_clips env rest))"

definition cloudrun_concatenate_videos :: "video_env \<Rightarrow> pyval list \<Rightarrow> string \<Rightarrow> bool" where
  "cloudrun_concatenate_videos env video_list output_path =
     (if video_list = [] then False
      else if \<not> list_all is_str video_list then False
      else (let clips = cloudrun_load_clips env (map the_str video_list)
            in if clips = [] then False
               else if write_videofile env clips output_path then True
               else False))"

text \<open>An environment for the examples: two files exist, one of them an empty clip.\<close>

definition demo_video_env :: video_env where
  "demo_video_env =
     \<lparr> path_exists = (\<lambda>p. p = ''final_videos/section_0.mp4'' \<or> p = ''final_videos/section_1.mp4''),
       clip_duration = (\<lambda>p. if p = ''final_videos/section_0.mp4'' then Some 12
                            else if p = ''final_videos/section_1.mp4'' then Some 0 else None),
       write_videofile = (\<lambda>clips out. True) \<rparr>"

section \<open>The cloud microservice's final-video endpoint (cloudrun/generate\_video.py)\<close>





text \<open>
  The call \<open>concatenate_videos(video_list, output_path)\<close> on a value that passed
  \<open>if not video_list\<close>: the function's own guards iterate over it, so a value that is not
  iterable raises \<open>TypeError\<close> before the \<open>try\<close> of \<open>concatenate_videos\<close> is entered.
\<close>

definition call_concatenate_videos :: "video_env \<Rightarrow> pyval \<Rightarrow> string \<Rightarrow> string + bool" where
  "call_concatenate_videos env video_list output_path =
     (case py_iter video_list of
        Inl msg \<Rightarrow> Inl msg
      | Inr elems \<Rightarrow> Inr (cloudrun_concatenate_videos env elems output_path))"








section \<open>Cleaning an LLM response (d3\_generator.py and script\_generation.py)\<close>

text \<open>
  A character is one of Isabelle's 256 \<open>char\<close>s, read as the code point of that number.
  \<open>str.strip()\<close> without arguments removes the characters for which \<open>str.isspace\<close>
  holds; below 256 these are the code points 9 to 13, 28 to 32, 133 and 160.
\<close>

definition is_space :: "char \<Rightarrow> bool" where
  "is_space c = (let n = (of_char c :: nat)
                 in (9 \<le> n \<and> n \<le> 13) \<or> (28 \<le> n \<and> n \<le> 32) \<or> n = 133 \<or> n = 160)"

definition py_strip :: "string \<Rightarrow> string" where
  "py_strip s = rev (dropWhile is_space (rev (dropWhile is_space s)))"

text \<open>The three backticks of a markdown code fence.\<close>

definition fence :: string where
  "fence = [CHR 0x60, CHR 0x60, CHR 0x60]"

text \<open>
  \<open>re.sub(pattern, "", text)\<close> for a pattern that is an ordered choice of literal strings:
  the scan goes from left to right; at each position the first alternative that matches is
  deleted and the scan goes on behind it; where none matches the character is kept. The
  pattern \<open>```(html)?\<close> is the choice of the fence followed by \<open>html\<close> (the greedy option
  is tried first) and the bare fence; \<open>```json|```\<close> is the choice it spells out.
\<close>

function delete_matches :: "string list \<Rightarrow> string \<Rightarrow> string" where
  "delete_matches alts [] = []"
| "delete_matches alts (c # cs) =
     (case find (\<lambda>m. m \<noteq> [] \<and> prefix m (c # cs)) alts of
        Some m \<Rightarrow> delete_matches alts (drop (length m) (c # cs))
      | None \<Rightarrow> c # delete_matches alts cs)"
  by pat_completeness auto
termination
  by (relation "measure (\<lambda>(alts, s). length s)") (auto simp: find_Some_iff)

text \<open>\<open>clean_response\<close> of d3\_generator.py: two substitutions, then \<open>strip\<close>.\<close>

definition clean_response :: "string \<Rightarrow> string" where
  "clean_response text =
     py_strip (delete_matches [fence] (delete_matches [fence @ ''html'', fence] text))"

text \<open>\<open>clean_json\<close> of script\_generation.py: \<open>strip\<close> first, then one substitution.\<close>

definition clean_json :: "string \<Rightarrow> string" where
  "clean_json text = delete_matches [fence @ ''json'', fence] (py_strip text)"

text \<open>
  The vocabulary of the claim about cleaning. The markers of a code fence; \<open>fences_removed s t\<close>:
  \<open>t\<close> is what is left of \<open>s\<close> after deleting occurrences of markers, one after the other,
  every other character staying where it is; \<open>trimmed s t\<close>: \<open>t\<close> is \<open>s\<close> without some
  whitespace at its two ends.
\<close>

definition fence_markers :: "string list" where
  "fence_markers = [fence @ ''html'', fence @ ''json'', fence]"

inductive fences_removed :: "string \<Rightarrow> string \<Rightarrow> bool" where
  same: "fences_removed s s"
| cut: "m \<in> set fence_markers \<Longrightarrow> fences_removed (a @ b) t \<Longrightarrow> fences_removed (a @ m @ b) t"

definition trimmed :: "string \<Rightarrow> string \<Rightarrow> bool" where
  "trimmed s t = (\<exists>l r. s = l @ t @ r \<and> list_all is_space l \<and> list_all is_space r)"

text \<open>A text without whitespace at either end: what \<open>strip\<close> leaves.\<close>

definition stripped :: "string \<Rightarrow> bool" where
  "stripped s = (s = [] \<or> (\<not> is_space (hd s) \<and> \<not> is_space (last s)))"

text \<open>Two responses of the kind the models send: the payload inside a fence.\<close>

definition demo_html_response :: string where
  "demo_html_response = fence @ ''html\<newline><p>hi</p>\<newline>'' @ fence"

definition demo_json_response :: string where
  "demo_json_response = '' '' @ fence @ ''json\<newline>{}\<newline>'' @ fence @ ''\<newline>''"

section \<open>The file system and the calls of \<open>os\<close> and \<open>shutil\<close>\<close>

text \<open>
  A path names a regular file (with its size in bytes), a directory (with the names of its
  entries) or nothing. Paths are POSIX paths relative to the working directory.
\<close>

datatype node = File nat | Dir "string list"

type_synonym filesystem = "string \<Rightarrow> node option"

text \<open>The calls that change the file system, as a run records them, each with its outcome.\<close>

datatype fs_op =
    OpWrite string
  | OpRemove string bool
  | OpRmtree string bool
  | OpMakedirs string bool

text \<open>
  What the operating system decides: whether an attempt of \<open>shutil.rmtree\<close> on a directory
  removes it or fails (and which entries a failed attempt leaves behind), whether creating
  a directory is refused, and whether removing a file is refused.
\<close>

datatype rm_outcome = RmRemoved | RmFailed "string list"

record os_env =
  rmtree_outcome :: "string \<Rightarrow> nat \<Rightarrow> rm_outcome"
  makedirs_fails :: "string \<Rightarrow> bool"
  remove_fails :: "string \<Rightarrow> bool"



text \<open>\<open>os.remove(file)\<close>: \<open>False\<close> when it raises; it removes regular files only.\<close>

definition os_remove :: "os_env \<Rightarrow> string \<Rightarrow> filesystem \<Rightarrow> bool \<times> filesystem" where
  "os_remove env file fs =
     (case fs file of
        Some (File bytes) \<Rightarrow> if remove_fails env file then (False, fs) else (True, fs(file := None))
      | Some (Dir entries) \<Rightarrow> (False, fs)
      | None \<Rightarrow> (False, fs))"

text \<open>\<open>os.path.join(a, b)\<close> of \<open>posixpath\<close>, for two components.\<close>

definition path_join :: "string \<Rightarrow> string \<Rightarrow> string" where
  "path_join a b =
     (if b \<noteq> [] \<and> hd b = CHR ''/'' then b
      else if a = [] \<or> last a = CHR ''/'' then a @ b
      else a @ ''/'' @ b)"

text \<open>\<open>str(n)\<close> for an integer, as an f-string formats it.\<close>

definition digit_char :: "nat \<Rightarrow> char" where
  "digit_char n = ''0123456789'' ! n"

fun str_nat :: "nat \<Rightarrow> string" where
  "str_nat n = (if n < 10 then [digit_char n] else str_nat (n div 10) @ [digit_char (n mod 10)])"

declare str_nat.simps [simp del]

definition str_int :: "int \<Rightarrow> string" where
  "str_int i = (if i < 0 then CHR ''-'' # str_nat (nat (- i)) else str_nat (nat i))"

section \<open>Cleaning up the previous run (Master.py)\<close>











text \<open>
  Two environments for the examples: one where every call succeeds, and one where the
  directory \<open>audio\<close> cannot be removed (a file in it stays locked).
\<close>

definition kind_os :: os_env where
  "kind_os = \<lparr> rmtree_outcome = (\<lambda>d attempt. RmRemoved), makedirs_fails = (\<lambda>d. False),
               remove_fails = (\<lambda>f. False) \<rparr>"


definition previous_run_fs :: filesystem where
  "previous_run_fs =
     [''audio'' \<mapsto> Dir [''audio_section_0.mp3''],
      ''final_videos'' \<mapsto> Dir [''section_0.mp4''],
      ''output_script.json'' \<mapsto> File 2048]"




section \<open>Speech synthesis for one section (text\_to\_speech.py)\<close>

text \<open>
  What gTTS does, as far as \<open>generate_audio\<close> can tell: the constructor raises; or \<open>save\<close>
  raises, having left a file of some size at the path or nothing; or \<open>save\<close> returns,
  having written a file of some size (or, against its contract, nothing).
\<close>

datatype tts_outcome = TtsInitRaises | TtsSaveRaises "nat option" | TtsSaved "nat option"

record audio_env =
  tts :: "string \<Rightarrow> tts_outcome"
  audio_os :: os_env

definition AUDIO_DIR :: string where
  "AUDIO_DIR = ''audio''"

definition audio_file_path :: "int \<Rightarrow> string" where
  "audio_file_path section_index =
     path_join AUDIO_DIR (''audio_section_'' @ str_int section_index @ ''.mp3'')"

text \<open>What \<open>tts.save(audio_path)\<close> leaves on the file system.\<close>

definition tts_write :: "filesystem \<Rightarrow> string \<Rightarrow> nat option \<Rightarrow> filesystem \<times> fs_op list" where
  "tts_write fs audio_path written =
     (case written of
        None \<Rightarrow> (fs, [])
      | Some bytes \<Rightarrow> (fs(audio_path \<mapsto> File bytes), [OpWrite audio_path]))"

text \<open>
  The \<open>except\<close> clause: a file found at the path is removed (a failure of \<open>os.remove\<close> is
  logged only), and the result is \<open>None\<close>.
\<close>

definition remove_partial_audio ::
  "os_env \<Rightarrow> string \<Rightarrow> filesystem \<Rightarrow> fs_op list \<Rightarrow> string option \<times> filesystem \<times> fs_op list" where
  "remove_partial_audio env audio_path fs ops =
     (if fs audio_path \<noteq> None then
        (case os_remove env audio_path fs of
           (ok, fs') \<Rightarrow> (None, fs', ops @ [OpRemove audio_path ok]))
      else (None, fs, ops))"

text \<open>
  \<open>generate_audio(text, section_index, output_dir)\<close>: the path it returns or \<open>None\<close>, the
  file system afterwards, and the calls that changed it. The parameter \<open>output_dir\<close> is
  read only for a first value of \<open>audio_path\<close>, which is overwritten before it is used.
  After \<open>save\<close> the file must exist with at least 1000 bytes, else \<open>IOError\<close> is raised.
\<close>

definition generate_audio ::
  "audio_env \<Rightarrow> string \<Rightarrow> int \<Rightarrow> string \<Rightarrow> filesystem \<Rightarrow> string option \<times> filesystem \<times> fs_op list" where
  "generate_audio env text section_index output_dir fs =
     (if py_strip text = [] then (None, fs, [])
      else
        (let audio_path = audio_file_path section_index
         in if fs audio_path \<noteq> None then (Some audio_path, fs, [])
            else
              (case tts env text of
                 TtsInitRaises \<Rightarrow> remove_partial_audio (audio_os env) audio_path fs []
               | TtsSaveRaises written \<Rightarrow>
                   (case tts_write fs audio_path written of
                      (fs1, ops1) \<Rightarrow> remove_partial_audio (audio_os env) audio_path fs1 ops1)
               | TtsSaved written \<Rightarrow>
                   (case tts_write fs audio_path written of
                      (fs1, ops1) \<Rightarrow>
                        (case fs1 audio_path of
                           Some (File bytes) \<Rightarrow>
                             if bytes < 1000
                             then remove_partial_audio (audio_os env) audio_path fs1 ops1
                             else (Some audio_path, fs1, ops1)
                         | _ \<Rightarrow> remove_partial_audio (audio_os env) audio_path fs1 ops1)))))"

text \<open>An environment in which \<open>save\<close> fails after writing 300 bytes.\<close>

definition broken_tts_env :: audio_env where
  "broken_tts_env = \<lparr> tts = (\<lambda>text. TtsSaveRaises (Some 300)), audio_os = kind_os \<rparr>"

section \<open>Properties of the video concatenation\<close>

lemma cloudrun_load_clips_eq: "cloudrun_load_clips env ps = load_clips env ps"
  by (induction ps) (auto split: option.splits)

lemma load_clips_valid:
  "set (load_clips env ps) = {p \<in> set ps. path_exists env p \<and> (\<exists>d. clip_duration env p = Some d \<and> d > 0)}"
  by (induction ps) (auto split: option.splits)

text \<open>
  Claim C8. The two copies of \<open>concatenate_videos\<close> return the same value on every video
  list, output path and environment; both return \<open>False\<close> on the empty list, on a list with
  an element that is not a string, and when no listed file yields a valid clip (one that
  exists, loads and has a positive duration).
\<close>

theorem concatenate_videos_copies_agree:
  "concatenate_videos env video_list output_path
     = cloudrun_concatenate_videos env video_list output_path
   \<and> concatenate_videos env [] output_path = False
   \<and> cloudrun_concatenate_videos env [] output_path = False
   \<and> ((\<exists>v \<in> set video_list. \<not> is_str v) \<longrightarrow>
        concatenate_videos env video_list output_path = False
        \<and> cloudrun_concatenate_videos env video_list output_path = False)
   \<and> ((\<forall>v \<in> set video_list. \<not> (path_exists env (the_str v)
            \<and> (\<exists>d. clip_duration env (the_str v) = Some d \<and> d > 0))) \<longrightarrow>
        concatenate_videos env video_list output_path = False
        \<and> cloudrun_concatenate_videos env video_list output_path = False)"
proof -
  have eq: "concatenate_videos env video_list output_path
     = cloudrun_concatenate_videos env video_list output_path"
    by (simp add: concatenate_videos_def cloudrun_concatenate_videos_def cloudrun_load_clips_eq)
  have empty: "concatenate_videos env [] output_path = False"
    by (simp add: concatenate_videos_def)
  have nonstr: "concatenate_videos env video_list output_path = False"
    if "\<exists>v \<in> set video_list. \<not> is_str v"
    using that by (auto simp: concatenate_videos_def list_all_iff)
  have noclip: "concatenate_videos env video_list output_path = False"
    if h: "\<forall>v \<in> set video_list. \<not> (path_exists env (the_str v)
            \<and> (\<exists>d. clip_duration env (the_str v) = Some d \<and> d > 0))"
  proof -
    have "set (load_clips env (map the_str video_list)) = {}"
      unfolding load_clips_valid using h by auto
    then show ?thesis by (simp add: concatenate_videos_def Let_def)
  qed
  show ?thesis
    using eq empty nonstr noclip
    by (metis (no_types, lifting) concatenate_videos_def cloudrun_concatenate_videos_def)
qed

theorem concatenate_videos_copies_agree_witness:
  "concatenate_videos demo_video_env
      [PStr ''final_videos/section_0.mp4'', PStr ''final_videos/section_1.mp4''] ''out.mp4''
     = cloudrun_concatenate_videos demo_video_env
      [PStr ''final_videos/section_0.mp4'', PStr ''final_videos/section_1.mp4''] ''out.mp4''
   \<and> concatenate_videos demo_video_env
      [PStr ''final_videos/section_0.mp4'', PStr ''final_videos/section_1.mp4''] ''out.mp4'' = True
   \<and> concatenate_videos demo_video_env [PStr ''final_videos/section_0.mp4'', PInt 3] ''out.mp4'' = False
   \<and> cloudrun_concatenate_videos demo_video_env [PStr ''final_videos/section_0.mp4'', PInt 3] ''out.mp4''
       = False
   \<and> concatenate_videos demo_video_env [PStr ''final_videos/section_1.mp4'', PStr ''gone.mp4''] ''out.mp4''
       = False
   \<and> cloudrun_concatenate_videos demo_video_env
        [PStr ''final_videos/section_1.mp4'', PStr ''gone.mp4''] ''out.mp4'' = False"
proof -
  have a: "concatenate_videos demo_video_env
      [PStr ''final_videos/section_0.mp4'', PStr ''final_videos/section_1.mp4''] ''out.mp4'' = True"
    by (simp add: concatenate_videos_def demo_video_env_def)
  have b: "\<exists>v \<in> set [PStr ''final_videos/section_0.mp4'', PInt 3]. \<not> is_str v"
    by simp
  have c: "\<forall>v \<in> set [PStr ''final_videos/section_1.mp4'', PStr ''gone.mp4''].
             \<not> (path_exists demo_video_env (the_str v)
                \<and> (\<exists>d. clip_duration demo_video_env (the_str v) = Some d \<and> d > 0))"
    by (simp add: demo_video_env_def)
  show ?thesis
    using a b c
      concatenate_videos_copies_agree [of demo_video_env
        "[PStr ''final_videos/section_0.mp4'', PStr ''final_videos/section_1.mp4'']" "''out.mp4''"]
      concatenate_videos_copies_agree [of demo_video_env
        "[PStr ''final_videos/section_0.mp4'', PInt 3]" "''out.mp4''"]
      concatenate_videos_copies_agree [of demo_video_env
        "[PStr ''final_videos/section_1.mp4'', PStr ''gone.mp4'']" "''out.mp4''"]
    by blast
qed

section \<open>Properties of the final-video endpoint\<close>

lemma call_concatenate_videos_list [simp]:
  "call_concatenate_videos env (PList vl) out = Inr (cloudrun_concatenate_videos env vl out)"
  by (simp add: call_concatenate_videos_def)










section \<open>Properties of the cleaning functions\<close>

lemma fences_removed_Cons: "fences_removed s t \<Longrightarrow> fences_removed (c # s) (c # t)"
proof (induction rule: fences_removed.induct)
  case (same s)
  show ?case by (rule fences_removed.same)
next
  case (cut m a b t)
  from fences_removed.cut[OF cut(1), of "c # a" b "c # t"] cut(3)
  show ?case by simp
qed

lemma fences_removed_trans:
  "fences_removed a b \<Longrightarrow> fences_removed b c \<Longrightarrow> fences_removed a c"
  by (induction rule: fences_removed.induct) (auto intro: fences_removed.cut)

lemma fences_removed_subseq: "fences_removed s t \<Longrightarrow> subseq t s"
proof (induction rule: fences_removed.induct)
  case (same s)
  show ?case by simp
next
  case (cut m a b t)
  have "subseq (a @ b) (a @ m @ b)"
    by (intro list_emb_append_mono) (simp_all add: list_emb_append2)
  with cut(3) show ?case by (rule subseq_order.trans)
qed

lemma delete_matches_removed:
  "set alts \<subseteq> set fence_markers \<Longrightarrow> fences_removed s (delete_matches alts s)"
proof (induction alts s rule: delete_matches.induct)
  case (1 alts)
  show ?case by (simp add: fences_removed.same)
next
  case (2 alts c cs)
  show ?case
  proof (cases "find (\<lambda>m. m \<noteq> [] \<and> prefix m (c # cs)) alts")
    case None
    with 2 show ?thesis by (simp add: fences_removed_Cons)
  next
    case (Some m)
    then have m: "m \<in> set alts" "prefix m (c # cs)"
      by (auto simp: find_Some_iff)
    then have eq: "c # cs = [] @ m @ drop (length m) (c # cs)"
      by (metis append_Nil append_take_drop_id prefix_def append_eq_conv_conj)
    have "fences_removed (drop (length m) (c # cs)) (delete_matches alts (drop (length m) (c # cs)))"
      using 2(2)[OF Some] 2(3) by simp
    then have "fences_removed ([] @ m @ drop (length m) (c # cs)) (delete_matches alts (drop (length m) (c # cs)))"
      using m(1) 2(3) by (intro fences_removed.cut) auto
    then show ?thesis using Some eq by simp
  qed
qed

lemma trimmed_py_strip: "trimmed s (py_strip s)"
proof -
  define l where "l = takeWhile is_space s"
  define m where "m = dropWhile is_space s"
  define r where "r = rev (takeWhile is_space (rev m))"
  have s: "l @ m = s" by (simp add: l_def m_def)
  have "rev (takeWhile is_space (rev m) @ dropWhile is_space (rev m)) = rev (rev m)"
    by (simp only: takeWhile_dropWhile_id)
  then have A: "rev (dropWhile is_space (rev m)) @ r = m"
    unfolding r_def by (simp only: rev_append rev_rev_ident)
  have "py_strip s = rev (dropWhile is_space (rev m))" by (simp add: py_strip_def m_def)
  then have "l @ py_strip s @ r = s" using A s by simp
  moreover have "list_all is_space l" unfolding l_def list_all_iff by (auto dest: set_takeWhileD)
  moreover have "list_all is_space r" unfolding r_def list_all_iff by (auto dest: set_takeWhileD)
  ultimately show ?thesis unfolding trimmed_def by metis
qed

lemma trimmed_subseq:
  assumes "trimmed s t" shows "subseq t s"
proof -
  from assms obtain l r where s: "s = l @ t @ r" by (auto simp: trimmed_def)
  have "subseq t (t @ r)" by (rule list_emb_prefix) simp
  then show ?thesis unfolding s by (rule list_emb_append2)
qed

lemma cleaning_subsequence:
  "(\<exists>u. fences_removed text u \<and> trimmed u (clean_response text))
   \<and> (\<exists>u. trimmed text u \<and> fences_removed u (clean_json text))
   \<and> subseq (clean_response text) text
   \<and> subseq (clean_json text) text"
proof -
  let ?u = "delete_matches [fence] (delete_matches [fence @ ''html'', fence] text)"
  have 1: "fences_removed text ?u"
    by (rule fences_removed_trans[OF delete_matches_removed delete_matches_removed])
       (simp_all add: fence_markers_def)
  have 2: "trimmed ?u (clean_response text)"
    unfolding clean_response_def by (rule trimmed_py_strip)
  have 3: "trimmed text (py_strip text)" by (rule trimmed_py_strip)
  have 4: "fences_removed (py_strip text) (clean_json text)"
    unfolding clean_json_def by (rule delete_matches_removed) (simp add: fence_markers_def)
  have 5: "subseq (clean_response text) text"
    using fences_removed_subseq[OF 1] trimmed_subseq[OF 2] by (rule subseq_order.trans[rotated])
  have 6: "subseq (clean_json text) text"
    using trimmed_subseq[OF 3] fences_removed_subseq[OF 4] by (rule subseq_order.trans[rotated])
  from 1 2 3 4 5 6 show ?thesis by blast
qed

lemma fence_backticks: "fence = [CHR 0x60, CHR 0x60, CHR 0x60]"
  by (simp add: fence_def)

lemma delete_matches_match:
  assumes "find (\<lambda>m. m \<noteq> [] \<and> prefix m (c # cs)) alts = Some m"
  shows "delete_matches alts (c # cs) = delete_matches alts (drop (length m) (c # cs))"
    and "prefix m (c # cs)" and "m \<in> set alts"
proof -
  show "delete_matches alts (c # cs) = delete_matches alts (drop (length m) (c # cs))"
    by (simp add: assms)
  show "prefix m (c # cs)" "m \<in> set alts"
    using assms by (auto simp: find_Some_iff)
qed

lemma match_starts_with_fence:
  assumes "find (\<lambda>m. m \<noteq> [] \<and> prefix m (c # cs)) alts = Some m" "\<forall>m \<in> set alts. prefix fence m"
  shows "\<exists>r. c # cs = CHR 0x60 # CHR 0x60 # CHR 0x60 # r"
proof -
  have "prefix m (c # cs)" "prefix fence m"
    using delete_matches_match(2,3)[OF assms(1)] assms(2) by blast+
  then have "prefix fence (c # cs)" by (rule prefix_order.trans[rotated])
  then show ?thesis by (auto simp: fence_backticks prefix_def)
qed

text \<open>What the output starts with, the input started with: a backtick, or two.\<close>

lemma delete_matches_head:
  "\<forall>m \<in> set alts. prefix fence m \<Longrightarrow> delete_matches alts s = CHR 0x60 # r
     \<Longrightarrow> \<exists>r'. s = CHR 0x60 # r'"
proof (induction alts s arbitrary: r rule: delete_matches.induct)
  case (1 alts)
  then show ?case by simp
next
  case (2 alts c cs)
  show ?case
  proof (cases "find (\<lambda>m. m \<noteq> [] \<and> prefix m (c # cs)) alts")
    case None
    with 2(4) show ?thesis by simp
  next
    case (Some m)
    from match_starts_with_fence[OF Some 2(3)] show ?thesis by auto
  qed
qed

lemma delete_matches_head2:
  "\<forall>m \<in> set alts. prefix fence m \<Longrightarrow> delete_matches alts s = CHR 0x60 # CHR 0x60 # r
     \<Longrightarrow> \<exists>r'. s = CHR 0x60 # CHR 0x60 # r'"
proof (induction alts s arbitrary: r rule: delete_matches.induct)
  case (1 alts)
  then show ?case by simp
next
  case (2 alts c cs)
  show ?case
  proof (cases "find (\<lambda>m. m \<noteq> [] \<and> prefix m (c # cs)) alts")
    case None
    with 2(4) have c: "c = CHR 0x60" and d: "delete_matches alts cs = CHR 0x60 # r" by simp_all
    from delete_matches_head[OF 2(3) d] c show ?thesis by auto
  next
    case (Some m)
    from match_starts_with_fence[OF Some 2(3)] show ?thesis by auto
  qed
qed

text \<open>One pass leaves no fence behind, when the bare fence is among the alternatives.\<close>

lemma delete_matches_no_fence:
  "fence \<in> set alts \<Longrightarrow> \<forall>m \<in> set alts. prefix fence m
     \<Longrightarrow> \<not> sublist fence (delete_matches alts s)"
proof (induction alts s rule: delete_matches.induct)
  case (1 alts)
  show ?case by (simp add: fence_backticks)
next
  case (2 alts c cs)
  show ?case
  proof (cases "find (\<lambda>m. m \<noteq> [] \<and> prefix m (c # cs)) alts")
    case (Some m)
    with 2(2)[OF Some 2(3,4)] show ?thesis by simp
  next
    case None
    have ih: "\<not> sublist fence (delete_matches alts cs)" using 2(1)[OF None 2(3,4)] .
    have eq: "delete_matches alts (c # cs) = c # delete_matches alts cs" using None by simp
    have nf: "\<not> prefix fence (c # cs)"
    proof
      assume "prefix fence (c # cs)"
      moreover have "fence \<noteq> []" by (simp add: fence_backticks)
      ultimately have "\<exists>m \<in> set alts. m \<noteq> [] \<and> prefix m (c # cs)" using 2(3) by blast
      then show False using None by (auto simp: find_None_iff)
    qed
    have "\<not> prefix fence (c # delete_matches alts cs)"
    proof
      assume "prefix fence (c # delete_matches alts cs)"
      then obtain r where c: "c = CHR 0x60" and d: "delete_matches alts cs = CHR 0x60 # CHR 0x60 # r"
        by (auto simp: fence_backticks prefix_def)
      from delete_matches_head2[OF 2(4) d] obtain r' where "cs = CHR 0x60 # CHR 0x60 # r'" by blast
      with c have "prefix fence (c # cs)" by (simp add: fence_backticks)
      with nf show False by simp
    qed
    with ih show ?thesis unfolding eq by (simp add: sublist_Cons_right)
  qed
qed

text \<open>A text without a fence passes through unchanged.\<close>

lemma delete_matches_id:
  "\<forall>m \<in> set alts. prefix fence m \<Longrightarrow> \<not> sublist fence s \<Longrightarrow> delete_matches alts s = s"
proof (induction alts s rule: delete_matches.induct)
  case (1 alts)
  show ?case by simp
next
  case (2 alts c cs)
  have np: "\<not> (\<exists>r. c # cs = CHR 0x60 # CHR 0x60 # CHR 0x60 # r)"
  proof
    assume "\<exists>r. c # cs = CHR 0x60 # CHR 0x60 # CHR 0x60 # r"
    then have "prefix fence (c # cs)" by (auto simp: fence_backticks)
    then have "sublist fence (c # cs)" by (rule prefix_imp_sublist)
    with 2(4) show False by simp
  qed
  have none: "find (\<lambda>m. m \<noteq> [] \<and> prefix m (c # cs)) alts = None"
  proof (cases "find (\<lambda>m. m \<noteq> [] \<and> prefix m (c # cs)) alts")
    case None
    then show ?thesis .
  next
    case (Some m)
    from match_starts_with_fence[OF Some 2(3)] np show ?thesis by simp
  qed
  have "\<not> sublist fence cs" using 2(4) by (simp add: sublist_Cons_right)
  from 2(1)[OF none 2(3) this] none show ?case by simp
qed

lemma py_strip_stripped: "stripped (py_strip s)"
proof (cases "py_strip s = []")
  case True
  then show ?thesis by (simp add: stripped_def)
next
  case False
  define m where "m = dropWhile is_space s"
  define t where "t = dropWhile is_space (rev m)"
  have p: "py_strip s = rev t" by (simp add: py_strip_def t_def m_def)
  with False have tn: "t \<noteq> []" by simp
  then have l: "\<not> is_space (hd t)" unfolding t_def by (rule hd_dropWhile)
  have "last (rev t) = hd t" using tn by (simp add: last_rev)
  then have e: "\<not> is_space (last (py_strip s))" using l p by simp
  have "takeWhile is_space (rev m) @ t = rev m"
    unfolding t_def by (rule takeWhile_dropWhile_id)
  then have "rev (takeWhile is_space (rev m) @ t) = rev (rev m)" by (rule arg_cong)
  then have mm: "rev t @ rev (takeWhile is_space (rev m)) = m"
    by (simp only: rev_append rev_rev_ident)
  have "hd (rev t @ rev (takeWhile is_space (rev m))) = hd (rev t)"
    using tn by (simp only: hd_append2 rev_is_Nil_conv not_False_eq_True)
  then have hm: "hd m = hd (rev t)" by (simp only: mm)
  have mn: "m \<noteq> []" using mm tn by (cases m) auto
  then have "\<not> is_space (hd m)" unfolding m_def by (rule hd_dropWhile)
  then have "\<not> is_space (hd (py_strip s))" using hm p by simp
  with e show ?thesis by (simp add: stripped_def)
qed

lemma py_strip_id:
  assumes "stripped s" shows "py_strip s = s"
proof (cases "s = []")
  case True
  then show ?thesis by (simp add: py_strip_def)
next
  case False
  with assms have h: "\<not> is_space (hd s)" and l: "\<not> is_space (last s)"
    by (simp_all add: stripped_def)
  from False h have 1: "dropWhile is_space s = s" by (cases s) simp_all
  have hr: "hd (rev s) = last s" using False by (simp add: hd_rev)
  obtain x xs where r: "rev s = x # xs" using False by (cases "rev s") simp_all
  with hr l have "\<not> is_space x" by simp
  then have 2: "dropWhile is_space (rev s) = rev s" unfolding r by simp
  show ?thesis unfolding py_strip_def 1 2 by simp
qed

lemma trimmed_sublist:
  assumes "trimmed s t" "sublist u t" shows "sublist u s"
proof -
  from assms obtain l r a b where "s = l @ t @ r" "t = a @ u @ b"
    by (auto simp: trimmed_def sublist_def)
  then have "s = (l @ a) @ u @ (b @ r)" by simp
  then show ?thesis unfolding sublist_def by blast
qed

text \<open>A payload without a fence, followed by a closing fence: the pass returns the payload.\<close>

lemma delete_matches_closing_fence:
  assumes tag: "tag \<noteq> []" "hd tag \<noteq> CHR 0x60"
  shows "\<not> sublist fence body \<Longrightarrow> delete_matches [fence @ tag, fence] (body @ fence) = body"
proof (induction body)
  case Nil
  have "\<not> prefix (fence @ tag) fence" using tag(1) by (simp add: prefix_def)
  then show ?case by (simp add: fence_backticks)
next
  case (Cons c cs)
  have nf: "\<not> sublist fence cs" "\<not> prefix fence (c # cs)"
    using Cons.prems by (simp_all add: sublist_Cons_right)
  have ih: "delete_matches [fence @ tag, fence] (cs @ fence) = cs" using Cons.IH nf(1) by simp
  obtain t ts where tg: "tag = t # ts" "t \<noteq> CHR 0x60" using tag by (cases tag) auto
  show ?case
  proof (cases "prefix fence ((c # cs) @ fence)")
    case False
    have "prefix fence (fence @ tag)" by simp
    then have "\<not> prefix (fence @ tag) ((c # cs) @ fence)"
      using False prefix_order.trans by blast
    with False ih show ?thesis by simp
  next
    case True
    then have c: "c = CHR 0x60" by (auto simp: fence_backticks)
    have "cs = [] \<or> cs = [CHR 0x60]"
    proof (cases cs)
      case Nil
      then show ?thesis by simp
    next
      case (Cons d ds)
      with True have d: "d = CHR 0x60" by (auto simp: fence_backticks)
      have "ds = []"
      proof (cases ds)
        case Nil
        then show ?thesis .
      next
        case (Cons e es)
        with True \<open>cs = d # ds\<close> have "e = CHR 0x60" by (auto simp: fence_backticks)
        with c d Cons \<open>cs = d # ds\<close> have "prefix fence (c # cs)" by (simp add: fence_backticks)
        with nf(2) show ?thesis by simp
      qed
      with d Cons show ?thesis by simp
    qed
    then show ?thesis
    proof
      assume "cs = []"
      with c tg show ?thesis by (simp add: fence_backticks)
    next
      assume "cs = [CHR 0x60]"
      with c tg show ?thesis by (simp add: fence_backticks)
    qed
  qed
qed

lemma clean_fence_free:
  assumes "\<not> sublist fence text"
  shows "clean_response text = py_strip text" "clean_json text = py_strip text"
proof -
  have 1: "delete_matches [fence @ ''html'', fence] text = text"
    using assms by (intro delete_matches_id) simp_all
  have 2: "delete_matches [fence] text = text"
    using assms by (intro delete_matches_id) simp_all
  show "clean_response text = py_strip text" by (simp add: clean_response_def 1 2)
  have "\<not> sublist fence (py_strip text)"
    using trimmed_sublist[OF trimmed_py_strip] assms by blast
  then have "delete_matches [fence @ ''json'', fence] (py_strip text) = py_strip text"
    by (intro delete_matches_id) simp_all
  then show "clean_json text = py_strip text" by (simp add: clean_json_def)
qed

lemma clean_fenced_payload:
  assumes "\<not> sublist fence body"
  shows "clean_response (fence @ ''html'' @ body @ fence) = py_strip body"
    and "clean_json (fence @ ''json'' @ body @ fence) = body"
proof -
  have open1: "delete_matches [fence @ ''html'', fence] (fence @ ''html'' @ body @ fence)
      = delete_matches [fence @ ''html'', fence] (body @ fence)"
    by (simp add: fence_backticks)
  have close1: "delete_matches [fence @ ''html'', fence] (body @ fence) = body"
    using assms by (intro delete_matches_closing_fence) simp_all
  have second: "delete_matches [fence] body = body"
    using assms by (intro delete_matches_id) simp_all
  show "clean_response (fence @ ''html'' @ body @ fence) = py_strip body"
    by (simp only: clean_response_def open1 close1 second)
  have "\<not> is_space (CHR 0x60)" by (simp add: is_space_def)
  then have "stripped (fence @ ''json'' @ body @ fence)"
    by (simp add: stripped_def fence_backticks)
  then have strip: "py_strip (fence @ ''json'' @ body @ fence) = fence @ ''json'' @ body @ fence"
    by (rule py_strip_id)
  have open2: "delete_matches [fence @ ''json'', fence] (fence @ ''json'' @ body @ fence)
      = delete_matches [fence @ ''json'', fence] (body @ fence)"
    by (simp add: fence_backticks)
  have close2: "delete_matches [fence @ ''json'', fence] (body @ fence) = body"
    using assms by (intro delete_matches_closing_fence) simp_all
  show "clean_json (fence @ ''json'' @ body @ fence) = body"
    by (simp only: clean_json_def strip open2 close2)
qed

lemma cleaning_decomposition:
  "(\<exists>u. fences_removed text u \<and> \<not> sublist fence u \<and> trimmed u (clean_response text))
   \<and> (\<exists>u. trimmed text u \<and> stripped u \<and> fences_removed u (clean_json text))
   \<and> \<not> sublist fence (clean_response text)
   \<and> stripped (clean_response text)
   \<and> \<not> sublist fence (clean_json text)"
proof -
  let ?u = "delete_matches [fence] (delete_matches [fence @ ''html'', fence] text)"
  have 1: "fences_removed text ?u"
    by (rule fences_removed_trans[OF delete_matches_removed delete_matches_removed])
       (simp_all add: fence_markers_def)
  have 2: "\<not> sublist fence ?u" by (rule delete_matches_no_fence) simp_all
  have 3: "trimmed ?u (clean_response text)"
    unfolding clean_response_def by (rule trimmed_py_strip)
  have 4: "\<not> sublist fence (clean_response text)"
    using trimmed_sublist[OF 3] 2 by blast
  have 5: "stripped (clean_response text)"
    unfolding clean_response_def by (rule py_strip_stripped)
  have 6: "trimmed text (py_strip text)" by (rule trimmed_py_strip)
  have 7: "stripped (py_strip text)" by (rule py_strip_stripped)
  have 8: "fences_removed (py_strip text) (clean_json text)"
    unfolding clean_json_def by (rule delete_matches_removed) (simp add: fence_markers_def)
  have 9: "\<not> sublist fence (clean_json text)"
    unfolding clean_json_def by (rule delete_matches_no_fence) simp_all
  from 1 2 3 4 5 6 7 8 9 show ?thesis by blast
qed

lemma clean_response_demo: "clean_response demo_html_response = ''<p>hi</p>''"
  by (simp add: clean_response_def demo_html_response_def fence_def py_strip_def is_space_def)

lemma clean_json_demo: "clean_json demo_json_response = ''\<newline>{}\<newline>''"
  by (simp add: clean_json_def demo_json_response_def fence_def py_strip_def is_space_def)

text \<open>
  Claim C2. Whatever the response, \<open>clean_response\<close> and \<open>clean_json\<close> only delete: the
  result of \<open>clean_response\<close> is the response with fence markers deleted and then whitespace
  removed at the two ends; the result of \<open>clean_json\<close> is the response with whitespace removed
  at the two ends and then fence markers deleted. Every character that is kept stays in order
  (the result is a subsequence of the response), and both functions are total: they return a
  string for every response and reject none.

  The removal is complete. No fence is left in either result; the result of
  \<open>clean_response\<close> has no whitespace at its ends, and \<open>clean_json\<close> deletes its markers
  from a text that has none. Nothing else is touched: a response without a fence is
  returned as \<open>strip\<close> leaves it, whatever it contains, and unchanged when it has no
  whitespace at its ends. A payload without a fence that stands between an opening fence
  with its tag (\<open>html\<close> for \<open>clean_response\<close>, \<open>json\<close> for \<open>clean_json\<close>) and a closing
  fence is returned as it is (stripped, by \<open>clean_response\<close>), fence and tag gone.
\<close>

theorem cleaning_only_removes:
  "((\<exists>u. fences_removed text u \<and> trimmed u (clean_response text))
   \<and> (\<exists>u. trimmed text u \<and> fences_removed u (clean_json text))
   \<and> subseq (clean_response text) text
   \<and> subseq (clean_json text) text)
   \<and> (\<exists>u. fences_removed text u \<and> \<not> sublist fence u \<and> trimmed u (clean_response text))
   \<and> (\<exists>u. trimmed text u \<and> stripped u \<and> fences_removed u (clean_json text))
   \<and> \<not> sublist fence (clean_response text)
   \<and> stripped (clean_response text)
   \<and> \<not> sublist fence (clean_json text)
   \<and> (\<not> sublist fence text \<longrightarrow>
         clean_response text = py_strip text \<and> clean_json text = py_strip text)
   \<and> (\<not> sublist fence text \<and> stripped text \<longrightarrow>
         clean_response text = text \<and> clean_json text = text)
   \<and> (\<not> sublist fence text \<longrightarrow>
         clean_response (fence @ ''html'' @ text @ fence) = py_strip text
         \<and> clean_json (fence @ ''json'' @ text @ fence) = text)"
proof -
  have a: "\<not> sublist fence text \<longrightarrow>
         clean_response text = py_strip text \<and> clean_json text = py_strip text"
    using clean_fence_free by blast
  have b: "\<not> sublist fence text \<and> stripped text \<longrightarrow>
         clean_response text = text \<and> clean_json text = text"
    using clean_fence_free py_strip_id by auto
  have c: "\<not> sublist fence text \<longrightarrow>
         clean_response (fence @ ''html'' @ text @ fence) = py_strip text
         \<and> clean_json (fence @ ''json'' @ text @ fence) = text"
    using clean_fenced_payload by blast
  note d = cleaning_decomposition [of "text"]
  show ?thesis
    apply (rule conjI [OF cleaning_subsequence])
    apply (rule conjI [OF d [THEN conjunct1]])
    apply (rule conjI [OF d [THEN conjunct2, THEN conjunct1]])
    apply (rule conjI [OF d [THEN conjunct2, THEN conjunct2, THEN conjunct1]])
    apply (rule conjI [OF d [THEN conjunct2, THEN conjunct2, THEN conjunct2, THEN conjunct1]])
    apply (rule conjI [OF d [THEN conjunct2, THEN conjunct2, THEN conjunct2, THEN conjunct2]])
    apply (rule conjI [OF a])
    apply (rule conjI [OF b])
    apply (rule c)
    done
qed

theorem cleaning_only_removes_witness:
  "(\<exists>u. fences_removed demo_html_response u \<and> trimmed u ''<p>hi</p>'')
   \<and> subseq ''<p>hi</p>'' demo_html_response
   \<and> (\<exists>u. trimmed demo_json_response u \<and> fences_removed u ''\<newline>{}\<newline>'')
   \<and> subseq ''\<newline>{}\<newline>'' demo_json_response
   \<and> \<not> sublist fence ''<p>hi</p>''
   \<and> stripped ''<p>hi</p>''
   \<and> clean_response ''<svg></svg>'' = ''<svg></svg>''
   \<and> clean_json (fence @ ''json'' @ ''{}'' @ fence) = ''{}''"
proof -
  note h = cleaning_only_removes [of demo_html_response, unfolded clean_response_demo]
  note j = cleaning_only_removes [of demo_json_response, unfolded clean_json_demo]
  have nf1: "\<not> sublist fence ''<svg></svg>''"
    by (simp add: fence_backticks sublist_Cons_right)
  have st1: "stripped ''<svg></svg>''" by (simp add: stripped_def is_space_def)
  have nf2: "\<not> sublist fence ''{}''"
    by (simp add: fence_backticks sublist_Cons_right)
  have 1: "clean_response ''<svg></svg>'' = ''<svg></svg>''"
    using nf1 st1 cleaning_only_removes [of "''<svg></svg>''"] by blast
  have 2: "clean_json (fence @ ''json'' @ ''{}'' @ fence) = ''{}''"
    using nf2 cleaning_only_removes [of "''{}''"] by blast
  from h j 1 2 show ?thesis by blast
qed

section \<open>Properties of the cleanup\<close>






































section \<open>Properties of the speech synthesis\<close>

lemma py_strip_empty_iff: "py_strip text = [] \<longleftrightarrow> list_all is_space text"
proof
  assume "list_all is_space text"
  then have "\<forall>x \<in> set text. is_space x" by (simp only: list_all_iff)
  then have d: "dropWhile is_space text = []" by (simp only: dropWhile_eq_Nil_conv)
  show "py_strip text = []" unfolding py_strip_def d by simp
next
  assume "py_strip text = []"
  then have "dropWhile is_space (rev (dropWhile is_space text)) = []"
    unfolding py_strip_def by (simp only: rev_is_Nil_conv)
  then have "\<forall>x \<in> set (rev (dropWhile is_space text)). is_space x"
    by (simp only: dropWhile_eq_Nil_conv)
  then have a: "\<forall>x \<in> set (dropWhile is_space text). is_space x"
    by (simp only: set_rev)
  have "dropWhile is_space text = []"
  proof (rule ccontr)
    assume n: "dropWhile is_space text \<noteq> []"
    then have "\<not> is_space (hd (dropWhile is_space text))" by (rule hd_dropWhile)
    moreover have "hd (dropWhile is_space text) \<in> set (dropWhile is_space text)"
      using n by (rule hd_in_set)
    ultimately show False using a by blast
  qed
  then have "\<forall>x \<in> set text. is_space x" by (simp only: dropWhile_eq_Nil_conv)
  then show "list_all is_space text" by (simp only: list_all_iff)
qed

lemma remove_partial_audio_props:
  assumes "remove_partial_audio env p fs ops = (r, fs', ops')"
  shows "r = None"
    and "fs p \<noteq> None \<Longrightarrow> \<exists>ok. ops' = ops @ [OpRemove p ok] \<and> (ok \<longrightarrow> fs' p = None)"
    and "fs p = None \<Longrightarrow> ops' = ops \<and> fs' = fs"
proof -
  obtain ok fs1 where rm: "os_remove env p fs = (ok, fs1)" by (cases "os_remove env p fs")
  have gone: "ok \<Longrightarrow> fs1 p = None"
    using rm by (cases "fs p") (auto simp: os_remove_def split: node.splits if_splits)
  show "r = None" using assms rm by (cases "fs p = None") (simp_all add: remove_partial_audio_def)
  show "fs p = None \<Longrightarrow> ops' = ops \<and> fs' = fs"
    using assms by (simp add: remove_partial_audio_def)
  assume "fs p \<noteq> None"
  then have "ops' = ops @ [OpRemove p ok]" "fs' = fs1"
    using assms rm by (simp_all add: remove_partial_audio_def)
  then show "\<exists>ok. ops' = ops @ [OpRemove p ok] \<and> (ok \<longrightarrow> fs' p = None)"
    using gone by blast
qed

text \<open>
  Claim C10. For a text that is empty or only whitespace, \<open>generate_audio\<close> returns
  \<open>None\<close>, leaves the file system as it was and makes no call that changes it. When it
  returns \<open>None\<close> for another text (the synthesis failed), a file that the synthesis wrote
  at the section's audio path is followed by one call of \<open>os.remove\<close> on that path, and
  the path is free afterwards unless that call failed.
\<close>

theorem generate_audio_blank_and_cleanup:
  "(list_all is_space text \<longrightarrow>
      generate_audio env text section_index output_dir fs = (None, fs, []))
   \<and> (\<not> list_all is_space text
        \<and> generate_audio env text section_index output_dir fs = (None, fs', ops) \<longrightarrow>
          (OpWrite (audio_file_path section_index) \<in> set ops \<longrightarrow>
             (\<exists>ok. ops = [OpWrite (audio_file_path section_index),
                           OpRemove (audio_file_path section_index) ok]))
          \<and> (fs' (audio_file_path section_index) = None
               \<or> OpRemove (audio_file_path section_index) False \<in> set ops))"
proof (rule conjI; rule impI)
  assume "list_all is_space text"
  then show "generate_audio env text section_index output_dir fs = (None, fs, [])"
    by (simp add: generate_audio_def py_strip_empty_iff)
next
  let ?p = "audio_file_path section_index"
  assume h: "\<not> list_all is_space text
        \<and> generate_audio env text section_index output_dir fs = (None, fs', ops)"
  then have ne: "py_strip text \<noteq> []" by (simp add: py_strip_empty_iff)
  from h ne have free: "fs ?p = None"
    by (auto simp: generate_audio_def Let_def split: if_splits)
  have "((OpWrite ?p \<in> set ops \<longrightarrow> (\<exists>ok. ops = [OpWrite ?p, OpRemove ?p ok]))
          \<and> (fs' ?p = None \<or> OpRemove ?p False \<in> set ops))"
  proof (cases "tts env text")
    case TtsInitRaises
    with h ne free have "remove_partial_audio (audio_os env) ?p fs [] = (None, fs', ops)"
      by (simp add: generate_audio_def Let_def)
    from remove_partial_audio_props(3)[OF this free] free show ?thesis by simp
  next
    case (TtsSaveRaises written)
    show ?thesis
    proof (cases written)
      case None
      with TtsSaveRaises h ne free
      have "remove_partial_audio (audio_os env) ?p fs [] = (None, fs', ops)"
        by (simp add: generate_audio_def Let_def tts_write_def)
      from remove_partial_audio_props(3)[OF this free] free show ?thesis by simp
    next
      case (Some bytes)
      with TtsSaveRaises h ne free
      have r: "remove_partial_audio (audio_os env) ?p (fs(?p \<mapsto> File bytes)) [OpWrite ?p]
          = (None, fs', ops)"
        by (simp add: generate_audio_def Let_def tts_write_def)
      have "(fs(?p \<mapsto> File bytes)) ?p \<noteq> None" by simp
      from remove_partial_audio_props(2)[OF r this] show ?thesis by (cases) auto
    qed
  next
    case (TtsSaved written)
    show ?thesis
    proof (cases written)
      case None
      with TtsSaved h ne free
      have "remove_partial_audio (audio_os env) ?p fs [] = (None, fs', ops)"
        by (simp add: generate_audio_def Let_def tts_write_def)
      from remove_partial_audio_props(3)[OF this free] free show ?thesis by simp
    next
      case (Some bytes)
      with TtsSaved h ne free
      have r: "remove_partial_audio (audio_os env) ?p (fs(?p \<mapsto> File bytes)) [OpWrite ?p]
          = (None, fs', ops)"
        by (simp add: generate_audio_def Let_def tts_write_def split: if_splits)
      have "(fs(?p \<mapsto> File bytes)) ?p \<noteq> None" by simp
      from remove_partial_audio_props(2)[OF r this] show ?thesis by (cases) auto
    qed
  qed
  then show "(OpWrite (audio_file_path section_index) \<in> set ops \<longrightarrow>
             (\<exists>ok. ops = [OpWrite (audio_file_path section_index),
                           OpRemove (audio_file_path section_index) ok]))
          \<and> (fs' (audio_file_path section_index) = None
               \<or> OpRemove (audio_file_path section_index) False \<in> set ops)" .
qed

lemma generate_audio_broken_run:
  "generate_audio broken_tts_env ''Force equals mass times acceleration.'' 0 ''audio'' Map.empty
     = (None, Map.empty, [OpWrite ''audio/audio_section_0.mp3'',
                          OpRemove ''audio/audio_section_0.mp3'' True])"
  by (simp add: generate_audio_def broken_tts_env_def kind_os_def py_strip_def is_space_def
      audio_file_path_def AUDIO_DIR_def path_join_def str_int_def str_nat.simps digit_char_def Let_def tts_write_def
      remove_partial_audio_def os_remove_def)

theorem generate_audio_blank_and_cleanup_witness:
  "generate_audio broken_tts_env '' \<newline> '' 3 ''audio'' previous_run_fs = (None, previous_run_fs, [])
   \<and> (\<exists>ok. [OpWrite ''audio/audio_section_0.mp3'', OpRemove ''audio/audio_section_0.mp3'' True]
          = [OpWrite (audio_file_path 0), OpRemove (audio_file_path 0) ok])"
proof -
  have b: "list_all is_space '' \<newline> ''" by (simp add: is_space_def)
  have n: "\<not> list_all is_space ''Force equals mass times acceleration.''"
    by (simp add: is_space_def)
  have w: "OpWrite (audio_file_path 0)
      \<in> set [OpWrite ''audio/audio_section_0.mp3'', OpRemove ''audio/audio_section_0.mp3'' True]"
    by (simp add: audio_file_path_def AUDIO_DIR_def path_join_def str_int_def str_nat.simps digit_char_def)
  from b generate_audio_blank_and_cleanup
         [of "'' \<newline> ''" broken_tts_env 3 "''audio''" previous_run_fs]
  have 1: "generate_audio broken_tts_env '' \<newline> '' 3 ''audio'' previous_run_fs
      = (None, previous_run_fs, [])" by blast
  from n w generate_audio_broken_run generate_audio_blank_and_cleanup
         [of "''Force equals mass times acceleration.''" broken_tts_env 0 "''audio''" Map.empty
             Map.empty "[OpWrite ''audio/audio_section_0.mp3'', OpRemove ''audio/audio_section_0.mp3'' True]"]
  have 2: "\<exists>ok. [OpWrite ''audio/audio_section_0.mp3'', OpRemove ''audio/audio_section_0.mp3'' True]
          = [OpWrite (audio_file_path 0), OpRemove (audio_file_path 0) ok]" by blast
  from 1 2 show ?thesis by blast
qed

end
